theory Spec2Isabelle
  imports Main
begin

unbundle bit_operations_syntax

section \<open>LSB steganography: the data model of \<^verbatim>\<open>backend/main.py\<close>\<close>

text \<open>
  A Python \<^verbatim>\<open>str\<close> holding a message is a sequence of Unicode code points, which an
  8-bit \<^typ>\<open>char\<close> cannot hold; a message is therefore the list of its code points, so
  that \<^verbatim>\<open>ord(c)\<close> is the element itself. The bit strings the program builds
  (\<^verbatim>\<open>binary_message\<close>, \<^verbatim>\<open>delimiter\<close>, \<^verbatim>\<open>byte\<close>) consist of ASCII digits and are
  kept as \<^typ>\<open>string\<close>.
\<close>

type_synonym message = "nat list"

text \<open>
  An element of \<^verbatim>\<open>img.getdata()\<close> is either an \<^verbatim>\<open>int\<close> or a tuple of ints; the
  program tells them apart with \<^verbatim>\<open>isinstance(pixel, int)\<close>.
\<close>

datatype pixel = PInt int | PTuple "int list"

text \<open>
  The only exception the two functions can raise on such pixels is
  \<^verbatim>\<open>ValueError\<close>. The model records which operation raised it: the unpacking
  \<^verbatim>\<open>r, g, b = pixel\<close>, a call of \<^verbatim>\<open>int\<close>, or a call of \<^verbatim>\<open>chr\<close>.
\<close>

datatype error = ValueError_unpack | ValueError_int | ValueError_chr

text \<open>
  Of an image the program reads \<^verbatim>\<open>img.mode\<close>, \<^verbatim>\<open>img.size\<close> and
  \<^verbatim>\<open>img.getdata()\<close>. The field for \<^verbatim>\<open>img.size\<close> is named \<open>size_of\<close>, since
  \<open>size\<close> is a constant of HOL.
\<close>

record image =
  mode :: string
  size_of :: "nat \<times> nat"
  getdata :: "pixel list"

section \<open>Conversions between numbers and digit strings\<close>

text \<open>The digits of \<^verbatim>\<open>format(n, 'b')\<close>, most significant first.\<close>

fun bin :: "nat \<Rightarrow> string" where
  "bin n = (if n < 2 then [if n = 0 then CHR ''0'' else CHR ''1'']
            else bin (n div 2) @ [if n mod 2 = 0 then CHR ''0'' else CHR ''1''])"

declare bin.simps [simp del]

text \<open>
  \<^verbatim>\<open>format(n, '08b')\<close>: the binary digits, padded with zeros on the left to a
  minimum width of 8. A number above 255 keeps all its digits.
\<close>

definition format_08b :: "nat \<Rightarrow> string" where
  "format_08b n = replicate (8 - length (bin n)) CHR ''0'' @ bin n"

text \<open>
  \<^verbatim>\<open>int(c)\<close> for a one-character string: the value of a decimal digit, and a
  \<^verbatim>\<open>ValueError\<close> for any other character.
\<close>

definition py_int :: "char \<Rightarrow> error + int" where
  "py_int c =
     (if c \<in> set ''0123456789'' then Inr (of_char c - 48) else Inl ValueError_int)"

text \<open>
  \<^verbatim>\<open>int(byte, 2)\<close> on a string of binary digits; the empty string and a string
  with any other character raise \<^verbatim>\<open>ValueError\<close>. (Python also accepts signs,
  surrounding blanks, underscores and a \<^verbatim>\<open>0b\<close> prefix; none of these characters
  occurs in a string built by \<open>str_lsb\<close> below.)
\<close>

fun base2_value :: "nat \<Rightarrow> string \<Rightarrow> nat" where
  "base2_value acc [] = acc"
| "base2_value acc (c # s) = base2_value (2 * acc + (if c = CHR ''1'' then 1 else 0)) s"

definition int_base2 :: "string \<Rightarrow> error + nat" where
  "int_base2 s =
     (if s = [] then Inl ValueError_int
      else if list_all (\<lambda>c. c = CHR ''0'' \<or> c = CHR ''1'') s
      then Inr (base2_value 0 s)
      else Inl ValueError_int)"

text \<open>\<^verbatim>\<open>chr(n)\<close>: the code point \<open>n\<close>, defined below \<^verbatim>\<open>0x110000\<close>.\<close>

definition py_chr :: "nat \<Rightarrow> error + nat" where
  "py_chr n = (if n < 1114112 then Inr n else Inl ValueError_chr)"

text \<open>
  \<^verbatim>\<open>str(v & 1)\<close>: the value \<^verbatim>\<open>v & 1\<close> is 0 or 1, printed as one digit.
\<close>

definition str_lsb :: "int \<Rightarrow> string" where
  "str_lsb v = (if v AND 1 = 0 then ''0'' else ''1'')"

text \<open>\<^verbatim>\<open>s.find(sub)\<close>: the lowest index at which \<open>sub\<close> occurs in \<open>s\<close>, or -1.\<close>

fun str_find :: "string \<Rightarrow> string \<Rightarrow> int" where
  "str_find [] sub = (if sub = [] then 0 else -1)"
| "str_find (c # s) sub =
     (if take (length sub) (c # s) = sub then 0
      else (let r = str_find s sub in if r = -1 then -1 else r + 1))"

definition delimiter :: string where
  "delimiter = ''1111111111111110''"

section \<open>\<^verbatim>\<open>hide_message\<close>\<close>

text \<open>Line 21: the digits of every character, then the delimiter.\<close>

definition binary_message_of :: "message \<Rightarrow> string" where
  "binary_message_of message = concat (map format_08b message) @ delimiter"

text \<open>
  One guarded assignment of the loop body (lines 27-31, 34-36, 37-39, 40-42): while
  digits remain, the channel takes the next digit as its lowest bit and
  \<^verbatim>\<open>msg_index\<close> advances; afterwards the channel is kept.
\<close>

definition set_channel :: "string \<Rightarrow> int \<Rightarrow> nat \<Rightarrow> error + (int \<times> nat)" where
  "set_channel binary_message v msg_index =
     (if msg_index < length binary_message
      then (case py_int (binary_message ! msg_index) of
              Inl e \<Rightarrow> Inl e
            | Inr d \<Rightarrow> Inr ((v AND NOT 1) OR d, msg_index + 1))
      else Inr (v, msg_index))"

text \<open>
  The loop body for one pixel (lines 26-43). \<^verbatim>\<open>r, g, b = pixel\<close> raises
  \<^verbatim>\<open>ValueError\<close> unless the tuple has exactly three elements.
\<close>

fun hide_pixel :: "string \<Rightarrow> pixel \<Rightarrow> nat \<Rightarrow> error + (pixel \<times> nat)" where
  "hide_pixel binary_message (PInt p) msg_index =
     (case set_channel binary_message p msg_index of
        Inl e \<Rightarrow> Inl e
      | Inr (p', i1) \<Rightarrow> Inr (PInt p', i1))"
| "hide_pixel binary_message (PTuple [r, g, b]) msg_index =
     (case set_channel binary_message r msg_index of
        Inl e \<Rightarrow> Inl e
      | Inr (r', i1) \<Rightarrow>
          (case set_channel binary_message g i1 of
             Inl e \<Rightarrow> Inl e
           | Inr (g', i2) \<Rightarrow>
               (case set_channel binary_message b i2 of
                  Inl e \<Rightarrow> Inl e
                | Inr (b', i3) \<Rightarrow> Inr (PTuple [r', g', b'], i3))))"
| "hide_pixel binary_message (PTuple cs) msg_index = Inl ValueError_unpack"

text \<open>The loop of lines 25-44, returning \<^verbatim>\<open>new_pixels\<close>.\<close>

fun hide_loop :: "string \<Rightarrow> pixel list \<Rightarrow> nat \<Rightarrow> error + pixel list" where
  "hide_loop binary_message [] msg_index = Inr []"
| "hide_loop binary_message (pixel # pixels) msg_index =
     (case hide_pixel binary_message pixel msg_index of
        Inl e \<Rightarrow> Inl e
      | Inr (new_pixel, i') \<Rightarrow>
          (case hide_loop binary_message pixels i' of
             Inl e \<Rightarrow> Inl e
           | Inr new_pixels \<Rightarrow> Inr (new_pixel # new_pixels)))"

text \<open>
  Lines 45-47: a new image of the same mode and size, holding \<^verbatim>\<open>new_pixels\<close>.
  \<^verbatim>\<open>Image.new\<close> and \<^verbatim>\<open>putdata\<close> belong to the imaging library; the model takes
  \<^verbatim>\<open>putdata\<close> to store the values it is given, as the library does for images of
  8-bit channels, so that \<^verbatim>\<open>getdata\<close> of the result is \<^verbatim>\<open>new_pixels\<close>.
\<close>

definition hide_message :: "image \<Rightarrow> message \<Rightarrow> error + image" where
  "hide_message img message =
     (case hide_loop (binary_message_of message) (getdata img) 0 of
        Inl e \<Rightarrow> Inl e
      | Inr new_pixels \<Rightarrow>
          Inr \<lparr>mode = mode img, size_of = size_of img, getdata = new_pixels\<rparr>)"

section \<open>\<^verbatim>\<open>extract_message\<close>\<close>

text \<open>The loop of lines 52-57, returning the accumulated \<^verbatim>\<open>binary_message\<close>.\<close>

fun lsb_stream :: "pixel list \<Rightarrow> error + string" where
  "lsb_stream [] = Inr []"
| "lsb_stream (PInt p # pixels) =
     (case lsb_stream pixels of Inl e \<Rightarrow> Inl e | Inr s \<Rightarrow> Inr (str_lsb p @ s))"
| "lsb_stream (PTuple [r, g, b] # pixels) =
     (case lsb_stream pixels of
        Inl e \<Rightarrow> Inl e
      | Inr s \<Rightarrow> Inr (str_lsb r @ str_lsb g @ str_lsb b @ s))"
| "lsb_stream (PTuple cs # pixels) = Inl ValueError_unpack"

text \<open>
  The loop of lines 63-67: \<^verbatim>\<open>range(0, len(binary_message), 8)\<close> visits every
  slice \<^verbatim>\<open>binary_message[i:i+8]\<close> that is not empty, the last one possibly shorter
  than 8.
\<close>

function decode_bytes :: "string \<Rightarrow> error + message" where
  "decode_bytes s =
     (if s = [] then Inr []
      else (case int_base2 (take 8 s) of
              Inl e \<Rightarrow> Inl e
            | Inr n \<Rightarrow>
                (case py_chr n of
                   Inl e \<Rightarrow> Inl e
                 | Inr c \<Rightarrow>
                     (case decode_bytes (drop 8 s) of
                        Inl e \<Rightarrow> Inl e
                      | Inr message \<Rightarrow> Inr (c # message)))))"
  by pat_completeness auto
termination
  by (relation "measure length") auto

declare decode_bytes.simps [simp del]

text \<open>The string returned on line 61, as code points.\<close>

definition no_message_found :: message where
  "no_message_found = map of_char ''No message found''"

definition extract_message :: "image \<Rightarrow> error + message" where
  "extract_message img =
     (case lsb_stream (getdata img) of
        Inl e \<Rightarrow> Inl e
      | Inr binary_message \<Rightarrow>
          (let end = str_find binary_message delimiter
           in if end = -1 then Inr no_message_found
              else decode_bytes (take (nat end) binary_message)))"

section \<open>Notions used to state the properties\<close>

text \<open>
  A bit string in the program's sense: a string of the characters 0 and 1, and the
  number a digit stands for.
\<close>

definition binary :: "string \<Rightarrow> bool" where
  "binary s = list_all (\<lambda>c. c = CHR ''0'' \<or> c = CHR ''1'') s"

definition bit_val :: "char \<Rightarrow> int" where
  "bit_val c = (if c = CHR ''1'' then 1 else 0)"

text \<open>
  The channel values of a pixel and of a grid, in scan order: the value itself for a
  single-channel pixel, the tuple's elements in their order for a multi-channel one.
\<close>

fun channels_of :: "pixel \<Rightarrow> int list" where
  "channels_of (PInt p) = [p]"
| "channels_of (PTuple cs) = cs"

definition channels :: "pixel list \<Rightarrow> int list" where
  "channels g = concat (map channels_of g)"

text \<open>The number of least-significant-bit slots of a grid: one per channel.\<close>

definition bit_count :: "pixel list \<Rightarrow> nat" where
  "bit_count g = length (channels g)"

text \<open>
  The pixels both functions process: integers and tuples of exactly three channels.
\<close>

fun supported_pixel :: "pixel \<Rightarrow> bool" where
  "supported_pixel (PInt p) = True"
| "supported_pixel (PTuple cs) = (length cs = 3)"

definition supported :: "pixel list \<Rightarrow> bool" where
  "supported g = list_all supported_pixel g"

text \<open>The shape of a pixel: single-channel, or multi-channel with its channel count.\<close>

datatype shape = Single | Multi nat

fun shape_of :: "pixel \<Rightarrow> shape" where
  "shape_of (PInt p) = Single"
| "shape_of (PTuple cs) = Multi (length cs)"

text \<open>
  Writing the digits of \<open>s\<close> into the lowest bits of a list of channel values, one
  digit per channel, until either list ends. The proofs below show that the encoder's
  loop computes this function on the grid's channels.
\<close>

fun embed :: "string \<Rightarrow> int list \<Rightarrow> int list" where
  "embed s [] = []"
| "embed [] (v # vs) = v # vs"
| "embed (c # s) (v # vs) = ((v AND NOT 1) OR bit_val c) # embed s vs"

text \<open>
  The bit stream of a grid in the words of the specification: the lowest bit of each
  channel, in scan order.
\<close>

definition lsb_of_channels :: "pixel list \<Rightarrow> string" where
  "lsb_of_channels g = concat (map str_lsb (channels g))"

text \<open>\<open>sub\<close> occurs in \<open>s\<close> at index \<open>j\<close>.\<close>

definition occurs_at :: "string \<Rightarrow> string \<Rightarrow> nat \<Rightarrow> bool" where
  "occurs_at sub s j = (take (length sub) (drop j s) = sub)"

text \<open>The digits of the message alone, without the delimiter.\<close>

definition message_bits :: "message \<Rightarrow> string" where
  "message_bits m = concat (map format_08b m)"

text \<open>Encoding a message into an image and decoding the result.\<close>

definition round_trip :: "image \<Rightarrow> message \<Rightarrow> error + message" where
  "round_trip img m =
     (case hide_message img m of Inl e \<Rightarrow> Inl e | Inr stego \<Rightarrow> extract_message stego)"

text \<open>
  The policy "ignore an incomplete trailing group": the longest prefix of a bit string
  made of complete groups of 8.
\<close>

definition complete_groups :: "string \<Rightarrow> string" where
  "complete_groups s = take (8 * (length s div 8)) s"

text \<open>
  Images used as concrete inputs below: 25 single-channel pixels whose lowest bits
  spell the character A, the delimiter and one more digit; 9 RGB pixels whose lowest
  bits spell the character A, the three digits 010 and the delimiter; an image whose
  channel values are all even; and an image whose channel values are all odd.
\<close>

definition stego_A :: image where
  "stego_A = \<lparr>mode = ''L'', size_of = (25, 1),
     getdata = [PInt 254, PInt 255, PInt 254, PInt 254, PInt 254, PInt 254, PInt 254, PInt 255,
                PInt 255, PInt 255, PInt 255, PInt 255, PInt 255, PInt 255, PInt 255, PInt 255,
                PInt 255, PInt 255, PInt 255, PInt 255, PInt 255, PInt 255, PInt 255, PInt 254,
                PInt 255]\<rparr>"

definition stego_partial :: image where
  "stego_partial = \<lparr>mode = ''RGB'', size_of = (9, 1),
     getdata = [PTuple [0, 1, 0], PTuple [0, 0, 0], PTuple [0, 1, 0],
                PTuple [1, 0, 1], PTuple [1, 1, 1], PTuple [1, 1, 1],
                PTuple [1, 1, 1], PTuple [1, 1, 1], PTuple [1, 1, 0]]\<rparr>"

definition clean_even :: image where
  "clean_even = \<lparr>mode = ''RGB'', size_of = (6, 1), getdata = replicate 6 (PTuple [100, 0, 254])\<rparr>"

definition clean_odd :: image where
  "clean_odd = \<lparr>mode = ''L'', size_of = (20, 1), getdata = replicate 20 (PInt 255)\<rparr>"

text \<open>
  Images whose pixels are tuples of two and of four channels: eight grey-with-alpha
  pixels whose lowest bits spell exactly the delimiter, and two RGBA pixels whose
  channel values are all even.
\<close>

definition la_terminator :: image where
  "la_terminator = \<lparr>mode = ''LA'', size_of = (8, 1),
     getdata = [PTuple [1, 255], PTuple [3, 255], PTuple [5, 255], PTuple [7, 255],
                PTuple [9, 255], PTuple [11, 255], PTuple [13, 255], PTuple [15, 254]]\<rparr>"

definition rgba_even :: image where
  "rgba_even = \<lparr>mode = ''RGBA'', size_of = (2, 1),
     getdata = [PTuple [0, 0, 0, 254], PTuple [10, 20, 30, 254]]\<rparr>"

section \<open>Lemmas\<close>

subsection \<open>Bit strings and the lowest bit\<close>

lemma binary_Nil [simp]: "binary []" by (simp add: binary_def)
lemma binary_Cons [simp]: "binary (c # s) = ((c = CHR ''0'' \<or> c = CHR ''1'') \<and> binary s)"
  by (simp add: binary_def)
lemma binary_append [simp]: "binary (s @ t) = (binary s \<and> binary t)"
  by (simp add: binary_def)
lemma binary_replicate0 [simp]: "binary (replicate n CHR ''0'')"
  by (induction n) simp_all
lemma binary_take: "binary s \<Longrightarrow> binary (take n s)"
  by (simp add: binary_def list_all_iff) (meson in_set_takeD)
lemma binary_drop: "binary s \<Longrightarrow> binary (drop n s)"
  by (simp add: binary_def list_all_iff) (meson in_set_dropD)
lemma binary_nth: "binary s \<Longrightarrow> i < length s \<Longrightarrow> s ! i = CHR ''0'' \<or> s ! i = CHR ''1''"
  by (simp add: binary_def list_all_length)

lemma binary_bin: "binary (bin n)"
  by (induction n rule: bin.induct) (subst bin.simps, simp)

lemma binary_format_08b: "binary (format_08b n)"
  by (simp add: format_08b_def binary_bin)

lemma binary_delimiter: "binary delimiter"
  by (simp add: delimiter_def)

lemma binary_concat: "(\<And>x. x \<in> set xs \<Longrightarrow> binary x) \<Longrightarrow> binary (concat xs)"
  by (induction xs) simp_all

lemma binary_binary_message_of: "binary (binary_message_of m)"
  by (auto simp: binary_message_of_def binary_delimiter binary_format_08b intro!: binary_concat)

lemma py_int_binary: "c = CHR ''0'' \<or> c = CHR ''1'' \<Longrightarrow> py_int c = Inr (bit_val c)"
  by (auto simp: py_int_def bit_val_def)

lemma lsb_set_and: "d = 0 \<or> d = 1 \<Longrightarrow> ((v AND NOT 1) OR d) AND 1 = (d::int)"
  by (auto simp: bit_eq_iff bit_simps)

lemma lsb_set_drop0: "drop_bit 1 ((v AND NOT 1) OR 0) = drop_bit 1 (v::int)"
  by (simp add: bit_eq_iff bit_simps)

lemma lsb_set_drop1: "drop_bit 1 ((v AND NOT 1) OR 1) = drop_bit 1 (v::int)"
  by (rule bit_eqI) (simp add: bit_simps)

lemma lsb_set_drop: "d = 0 \<or> d = 1 \<Longrightarrow> drop_bit 1 ((v AND NOT 1) OR d) = drop_bit 1 (v::int)"
  by (erule disjE; hypsubst; (rule lsb_set_drop0 | rule lsb_set_drop1))

lemma str_lsb_set: "c = CHR ''0'' \<or> c = CHR ''1'' \<Longrightarrow> str_lsb ((v AND NOT 1) OR bit_val c) = [c]"
proof -
  assume c: "c = CHR ''0'' \<or> c = CHR ''1''"
  then have "bit_val c = 0 \<or> bit_val c = 1" by (auto simp: bit_val_def)
  then have "((v AND NOT 1) OR bit_val c) AND 1 = bit_val c" by (rule lsb_set_and)
  with c show ?thesis unfolding str_lsb_def by (auto simp: bit_val_def)
qed

subsection \<open>The loop of the encoder, on the channels\<close>

lemma embed_Nil [simp]: "embed [] vs = vs"
  by (cases vs) simp_all

lemma embed_append: "embed s (xs @ ys) = embed s xs @ embed (drop (length xs) s) ys"
  by (induction s xs rule: embed.induct) simp_all

lemma length_embed [simp]: "length (embed s vs) = length vs"
  by (induction s vs rule: embed.induct) simp_all

lemma nth_embed:
  "k < length vs \<Longrightarrow>
   embed s vs ! k = (if k < length s then (vs ! k AND NOT 1) OR bit_val (s ! k) else vs ! k)"
proof (induction s vs arbitrary: k rule: embed.induct)
  case (3 c s v vs)
  then show ?case by (cases k) simp_all
qed simp_all

lemma set_channel_embed:
  assumes "binary bm" "i \<le> length bm"
  shows "\<exists>v' i'. set_channel bm v i = Inr (v', i') \<and> [v'] = embed (drop i bm) [v]
           \<and> i' \<le> length bm \<and> drop i' bm = drop 1 (drop i bm)"
proof (cases "i < length bm")
  case True
  then have d: "drop i bm = bm ! i # drop (Suc i) bm"
    by (simp add: Cons_nth_drop_Suc)
  from assms True have "py_int (bm ! i) = Inr (bit_val (bm ! i))"
    by (intro py_int_binary binary_nth)
  with True d show ?thesis
    by (simp add: set_channel_def)
next
  case False
  with assms show ?thesis by (simp add: set_channel_def)
qed

lemma length_3_cases: "length cs = 3 \<Longrightarrow> \<exists>r g b. cs = [r, g, b]"
  by (simp add: numeral_3_eq_3 length_Suc_conv) blast

lemma hide_pixel_embed:
  assumes "binary bm" "i \<le> length bm" "supported_pixel p"
  shows "\<exists>p' i'. hide_pixel bm p i = Inr (p', i')
           \<and> channels_of p' = embed (drop i bm) (channels_of p)
           \<and> shape_of p' = shape_of p
           \<and> i' \<le> length bm \<and> drop i' bm = drop (length (channels_of p)) (drop i bm)"
proof (cases p)
  case (PInt v)
  from set_channel_embed [OF assms(1,2), of v] obtain v' i1 where
    1: "set_channel bm v i = Inr (v', i1)" "[v'] = embed (drop i bm) [v]"
       "i1 \<le> length bm" "drop i1 bm = drop 1 (drop i bm)" by blast
  have "hide_pixel bm p i = Inr (PInt v', i1)"
    using 1(1) PInt by simp
  moreover have "channels_of (PInt v') = embed (drop i bm) (channels_of p)"
    using 1(2) PInt by simp
  moreover have "shape_of (PInt v') = shape_of p" using PInt by simp
  moreover have "drop i1 bm = drop (length (channels_of p)) (drop i bm)"
    using 1(4) PInt by simp
  ultimately show ?thesis using 1(3) by blast
next
  case (PTuple cs)
  with assms(3) have "length cs = 3" by simp
  then obtain r g b where cs: "cs = [r, g, b]"
    using length_3_cases by blast
  from set_channel_embed [OF assms(1,2), of r] obtain r' i1 where
    1: "set_channel bm r i = Inr (r', i1)" "[r'] = embed (drop i bm) [r]"
       "i1 \<le> length bm" "drop i1 bm = drop 1 (drop i bm)" by blast
  from set_channel_embed [OF assms(1) 1(3), of g] obtain g' i2 where
    2: "set_channel bm g i1 = Inr (g', i2)" "[g'] = embed (drop i1 bm) [g]"
       "i2 \<le> length bm" "drop i2 bm = drop 1 (drop i1 bm)" by blast
  from set_channel_embed [OF assms(1) 2(3), of b] obtain b' i3 where
    3: "set_channel bm b i2 = Inr (b', i3)" "[b'] = embed (drop i2 bm) [b]"
       "i3 \<le> length bm" "drop i3 bm = drop 1 (drop i2 bm)" by blast
  have d2: "drop i2 bm = drop 2 (drop i bm)" using 1(4) 2(4) by (simp add: eval_nat_numeral)
  have d3: "drop i3 bm = drop 3 (drop i bm)" using d2 3(4) by (simp add: eval_nat_numeral)
  have "embed (drop i bm) ([r] @ [g] @ [b]) = [r'] @ [g'] @ [b']"
    unfolding embed_append 1(2) 2(2) 3(2) using 1(4) d2 by simp
  then have e: "embed (drop i bm) [r, g, b] = [r', g', b']" by simp
  have "hide_pixel bm p i = Inr (PTuple [r', g', b'], i3)"
    using 1(1) 2(1) 3(1) PTuple cs by simp
  moreover have "channels_of (PTuple [r', g', b']) = embed (drop i bm) (channels_of p)"
    using e PTuple cs by simp
  moreover have "shape_of (PTuple [r', g', b']) = shape_of p" using PTuple cs by simp
  moreover have "drop i3 bm = drop (length (channels_of p)) (drop i bm)"
    using d3 PTuple cs by (simp add: eval_nat_numeral)
  ultimately show ?thesis using 3(3) by blast
qed

lemma hide_loop_embed:
  "binary bm \<Longrightarrow> i \<le> length bm \<Longrightarrow> supported g \<Longrightarrow>
   \<exists>g'. hide_loop bm g i = Inr g' \<and> channels g' = embed (drop i bm) (channels g)
        \<and> map shape_of g' = map shape_of g"
proof (induction g arbitrary: i)
  case Nil
  then show ?case by (simp add: channels_def)
next
  case (Cons p g)
  from Cons.prems have sp: "supported_pixel p" and sg: "supported g"
    by (simp_all add: supported_def)
  from hide_pixel_embed [OF Cons.prems(1,2) sp] obtain p' i' where
    p: "hide_pixel bm p i = Inr (p', i')"
       "channels_of p' = embed (drop i bm) (channels_of p)"
       "shape_of p' = shape_of p" "i' \<le> length bm"
       "drop i' bm = drop (length (channels_of p)) (drop i bm)" by blast
  from Cons.IH [OF Cons.prems(1) p(4) sg] obtain g' where
    g: "hide_loop bm g i' = Inr g'" "channels g' = embed (drop i' bm) (channels g)"
       "map shape_of g' = map shape_of g" by blast
  have "channels (p' # g') = embed (drop i bm) (channels (p # g))"
    using p(2,5) g(2) by (simp add: channels_def embed_append)
  moreover have "hide_loop bm (p # g) i = Inr (p' # g')"
    using p(1) g(1) by simp
  moreover have "map shape_of (p' # g') = map shape_of (p # g)"
    using p(3) g(3) by simp
  ultimately show ?case by blast
qed

subsection \<open>Grids with other pixels, and the stream of lowest bits\<close>

lemma hide_pixel_unsupported:
  "\<not> supported_pixel p \<Longrightarrow> hide_pixel bm p i = Inl ValueError_unpack"
  by (cases "(bm, p, i)" rule: hide_pixel.cases) simp_all

lemma hide_loop_unsupported:
  "binary bm \<Longrightarrow> i \<le> length bm \<Longrightarrow> \<not> supported g \<Longrightarrow>
   hide_loop bm g i = Inl ValueError_unpack"
proof (induction g arbitrary: i)
  case Nil
  then show ?case by (simp add: supported_def)
next
  case (Cons p g)
  show ?case
  proof (cases "supported_pixel p")
    case True
    with Cons.prems(3) have ng: "\<not> supported g" by (simp add: supported_def)
    from hide_pixel_embed [OF Cons.prems(1,2) True] obtain p' i' where
      p: "hide_pixel bm p i = Inr (p', i')" "i' \<le> length bm" by blast
    from Cons.IH [OF Cons.prems(1) p(2) ng] p(1) show ?thesis by simp
  next
    case False
    then show ?thesis by (simp add: hide_pixel_unsupported)
  qed
qed

lemma lsb_stream_supported:
  "supported g \<Longrightarrow> lsb_stream g = Inr (concat (map str_lsb (channels g)))"
proof (induction g rule: lsb_stream.induct)
  case 1
  then show ?case by (simp add: channels_def)
next
  case (2 p pixels)
  then show ?case by (simp add: channels_def supported_def)
next
  case (3 r g b pixels)
  then show ?case by (simp add: channels_def supported_def)
qed (simp_all add: supported_def)

lemma lsb_stream_unsupported:
  "\<not> supported g \<Longrightarrow> lsb_stream g = Inl ValueError_unpack"
  by (induction g rule: lsb_stream.induct) (simp_all add: supported_def)

lemma supported_iff:
  "supported g = (\<forall>cs. PTuple cs \<in> set g \<longrightarrow> length cs = 3)"
proof -
  have "supported_pixel p = (\<forall>cs. p = PTuple cs \<longrightarrow> length cs = 3)" for p
    by (cases p) simp_all
  then show ?thesis
    by (auto simp: supported_def list_all_iff)
qed

lemma str_lsb_binary: "binary (str_lsb v)"
  by (simp add: str_lsb_def)

lemma lsb_embed:
  "binary s \<Longrightarrow>
   concat (map str_lsb (embed s vs))
     = take (length vs) s @ concat (map str_lsb (drop (length s) vs))"
proof (induction s vs rule: embed.induct)
  case (3 c s v vs)
  then have "str_lsb ((v AND NOT 1) OR bit_val c) = [c]"
    by (intro str_lsb_set) simp
  with 3 show ?case by simp
qed simp_all

lemma length_lsb [simp]: "length (concat (map str_lsb vs)) = length vs"
  by (induction vs) (simp_all add: str_lsb_def)

subsection \<open>Searching for the delimiter\<close>

lemma occurs_at_Nil: "sub \<noteq> [] \<Longrightarrow> \<not> occurs_at sub [] j"
  by (auto simp: occurs_at_def)

lemma occurs_at_Cons_Suc [simp]: "occurs_at sub (c # s) (Suc j) = occurs_at sub s j"
  by (simp add: occurs_at_def)

lemma occurs_at_0: "occurs_at sub s 0 = (take (length sub) s = sub)"
  by (simp add: occurs_at_def)

lemma str_find_spec:
  assumes "sub \<noteq> []"
  shows "(str_find s sub = -1 \<and> (\<forall>j. \<not> occurs_at sub s j)) \<or>
         (\<exists>i. str_find s sub = int i \<and> occurs_at sub s i \<and> (\<forall>j<i. \<not> occurs_at sub s j))"
proof (induction s)
  case Nil
  with assms show ?case by (simp add: occurs_at_Nil)
next
  case (Cons c s)
  show ?case
  proof (cases "take (length sub) (c # s) = sub")
    case True
    then have "str_find (c # s) sub = int 0" "occurs_at sub (c # s) 0"
      by (simp_all add: occurs_at_0)
    then show ?thesis by blast
  next
    case False
    then have n0: "\<not> occurs_at sub (c # s) 0" by (simp add: occurs_at_0)
    from Cons.IH show ?thesis
    proof (elim disjE conjE exE)
      assume r: "str_find s sub = -1" and none: "\<forall>j. \<not> occurs_at sub s j"
      have "\<not> occurs_at sub (c # s) j" for j
        using n0 none by (cases j) simp_all
      moreover have "str_find (c # s) sub = -1" using False r by simp
      ultimately show ?thesis by blast
    next
      fix i
      assume r: "str_find s sub = int i" and at: "occurs_at sub s i"
        and first: "\<forall>j<i. \<not> occurs_at sub s j"
      have "str_find (c # s) sub = int (Suc i)" using False r by simp
      moreover have "occurs_at sub (c # s) (Suc i)" using at by simp
      moreover have "\<not> occurs_at sub (c # s) j" if "j < Suc i" for j
        using n0 first that by (cases j) simp_all
      ultimately show ?thesis by blast
    qed
  qed
qed

lemma str_find_first:
  assumes "sub \<noteq> []" "occurs_at sub s i" "\<forall>j<i. \<not> occurs_at sub s j"
  shows "str_find s sub = int i"
proof -
  from str_find_spec [OF assms(1), of s] assms(2)
  obtain k where k: "str_find s sub = int k" "occurs_at sub s k" "\<forall>j<k. \<not> occurs_at sub s j"
    by blast
  have "k = i"
    using k(2,3) assms(2,3) by (meson linorder_neqE_nat)
  with k(1) show ?thesis by simp
qed

lemma str_find_none:
  assumes "sub \<noteq> []"
  shows "(str_find s sub = -1) = (\<forall>j. \<not> occurs_at sub s j)"
  using str_find_spec [OF assms, of s] by auto

lemma str_find_found:
  assumes "sub \<noteq> []" "str_find s sub \<noteq> -1"
  shows "\<exists>i. str_find s sub = int i \<and> occurs_at sub s i \<and> (\<forall>j<i. \<not> occurs_at sub s j)"
  using str_find_spec [OF assms(1), of s] assms(2) by auto

lemma delimiter_replicate: "delimiter = replicate 15 CHR ''1'' @ [CHR ''0'']"
  by (simp add: delimiter_def eval_nat_numeral)

lemma length_delimiter [simp]: "length delimiter = 16"
  by (simp add: delimiter_def)

lemma delimiter_not_Nil [simp]: "delimiter \<noteq> []"
  by (simp add: delimiter_def)

lemma delimiter_nth_one: "k < 15 \<Longrightarrow> delimiter ! k = CHR ''1''"
  unfolding delimiter_replicate by (simp add: nth_append)

lemma delimiter_nth_zero: "delimiter ! 15 = CHR ''0''"
  unfolding delimiter_replicate by (simp add: nth_append)

lemma no_early_delimiter:
  assumes none: "\<not> occurs_at delimiter mb j" and j: "j < length mb"
  shows "\<not> occurs_at delimiter (mb @ delimiter @ rest) j"
proof
  assume "occurs_at delimiter (mb @ delimiter @ rest) j"
  then have eq: "take 16 (drop j (mb @ delimiter @ rest)) = delimiter"
    by (simp add: occurs_at_def)
  show False
  proof (cases "j + 16 \<le> length mb")
    case True
    then have "take 16 (drop j (mb @ delimiter @ rest)) = take 16 (drop j mb)"
      by simp
    with eq none show False by (simp add: occurs_at_def)
  next
    case False
    let ?k = "j + 15 - length mb"
    from False j have k: "?k < 15" "length mb \<le> j + 15" by simp_all
    have "take 16 (drop j (mb @ delimiter @ rest)) ! 15 = drop j (mb @ delimiter @ rest) ! 15"
      by (rule nth_take) simp
    also have "\<dots> = (mb @ delimiter @ rest) ! (j + 15)"
      using j by (subst nth_drop) simp_all
    also have "\<dots> = (delimiter @ rest) ! ?k"
      using k(2) by (simp add: nth_append)
    also have "\<dots> = delimiter ! ?k"
      using k(1) by (simp add: nth_append)
    also have "\<dots> = CHR ''1''"
      using k(1) by (rule delimiter_nth_one)
    finally show False using eq delimiter_nth_zero by simp
  qed
qed

lemma str_find_payload:
  assumes "str_find mb delimiter = -1"
  shows "str_find (mb @ delimiter @ rest) delimiter = int (length mb)"
proof (rule str_find_first)
  show "delimiter \<noteq> []" by simp
  show "occurs_at delimiter (mb @ delimiter @ rest) (length mb)"
    by (simp add: occurs_at_def)
  from assms have "\<forall>j. \<not> occurs_at delimiter mb j"
    by (simp add: str_find_none)
  then show "\<forall>j<length mb. \<not> occurs_at delimiter (mb @ delimiter @ rest) j"
    by (simp add: no_early_delimiter)
qed

subsection \<open>Digits and their values\<close>

lemma int_base2_binary:
  "binary s \<Longrightarrow> s \<noteq> [] \<Longrightarrow> int_base2 s = Inr (base2_value 0 s)"
  by (simp add: int_base2_def binary_def)

lemma base2_value_append:
  "base2_value a (s @ t) = base2_value (base2_value a s) t"
  by (induction s arbitrary: a) simp_all

lemma bin_not_Nil [simp]: "bin n \<noteq> []"
  by (subst bin.simps) simp

lemma value_bin: "base2_value 0 (bin n) = n"
proof (induction n rule: bin.induct)
  case (1 n)
  show ?case
  proof (cases "n < 2")
    case True
    then have "n = 0 \<or> n = 1" by auto
    then show ?thesis by (subst bin.simps) auto
  next
    case False
    with 1 have ih: "base2_value 0 (bin (n div 2)) = n div 2" by simp
    have "base2_value 0 (bin n)
            = base2_value 0 (bin (n div 2) @ [if n mod 2 = 0 then CHR ''0'' else CHR ''1''])"
      using False by (subst bin.simps) simp
    also have "\<dots> = 2 * (n div 2) + (if n mod 2 = 0 then 0 else 1)"
      by (simp add: base2_value_append ih)
    also have "\<dots> = n" by presburger
    finally show ?thesis .
  qed
qed

lemma value_zeros: "base2_value 0 (replicate k CHR ''0'') = 0"
  by (induction k) simp_all

lemma value_format_08b: "base2_value 0 (format_08b n) = n"
  by (simp add: format_08b_def base2_value_append value_zeros value_bin)

lemma format_08b_not_Nil [simp]: "format_08b n \<noteq> []"
  by (simp add: format_08b_def)

lemma int_base2_format_08b: "int_base2 (format_08b n) = Inr n"
  by (simp add: int_base2_binary binary_format_08b value_format_08b)

lemma length_bin_le: "n < 2 ^ k \<Longrightarrow> 0 < k \<Longrightarrow> length (bin n) \<le> k"
proof (induction n arbitrary: k rule: bin.induct)
  case (1 n)
  show ?case
  proof (cases "n < 2")
    case True
    with 1(3) show ?thesis by (subst bin.simps) simp
  next
    case False
    from 1(3) obtain k' where k: "k = Suc k'" by (cases k) simp_all
    from False 1(2) k have "0 < k'" by (cases k') simp_all
    moreover from 1(2) k have "n div 2 < 2 ^ k'" by simp
    ultimately have "length (bin (n div 2)) \<le> k'" using 1(1) False by simp
    with False k show ?thesis by (subst bin.simps) simp
  qed
qed

lemma length_bin_gt: "2 ^ k \<le> n \<Longrightarrow> k < length (bin n)"
proof (induction n arbitrary: k rule: bin.induct)
  case (1 n)
  show ?case
  proof (cases k)
    case 0
    then show ?thesis using bin_not_Nil [of n] by (simp del: bin_not_Nil)
  next
    case (Suc k')
    from 1(2) Suc have "2 * 2 ^ k' \<le> n" by simp
    then have n2: "\<not> n < 2" "2 ^ k' \<le> n div 2"
      using one_le_power [of "2::nat" k'] by linarith+
    with 1(1) have "k' < length (bin (n div 2))" by simp
    with n2 Suc show ?thesis by (subst bin.simps) simp
  qed
qed

lemma length_format_08b: "n \<le> 255 \<Longrightarrow> length (format_08b n) = 8"
proof -
  assume "n \<le> 255"
  then have "n < 2 ^ 8" by simp
  then have "length (bin n) \<le> 8" by (rule length_bin_le) simp
  then show ?thesis by (simp add: format_08b_def)
qed

lemma length_format_08b_big: "255 < n \<Longrightarrow> 8 < length (format_08b n)"
proof -
  assume "255 < n"
  then have "2 ^ 8 \<le> n" by simp
  then have "8 < length (bin n)" by (rule length_bin_gt)
  then show ?thesis by (simp add: format_08b_def)
qed

lemma length_format_08b_ge: "8 \<le> length (format_08b n)"
  by (simp add: format_08b_def)

lemma value_less: "base2_value a s < 2 ^ length s * (a + 1)"
proof (induction s arbitrary: a)
  case (Cons c s)
  let ?a' = "2 * a + (if c = CHR ''1'' then 1 else 0)"
  have "base2_value ?a' s < 2 ^ length s * (?a' + 1)" by (rule Cons.IH)
  also have "\<dots> \<le> 2 ^ length s * (2 * (a + 1))" by simp
  finally show ?case by (simp add: mult.assoc)
qed simp

lemma py_chr_short: "length s \<le> 8 \<Longrightarrow> py_chr (base2_value 0 s) = Inr (base2_value 0 s)"
proof -
  assume l: "length s \<le> 8"
  have "base2_value 0 s < 2 ^ length s" using value_less [of 0 s] by simp
  also have "\<dots> \<le> (2::nat) ^ 8" using l by (intro power_increasing) simp_all
  finally show ?thesis by (simp add: py_chr_def)
qed

subsection \<open>The loop of the decoder\<close>

lemma decode_bytes_Nil [simp]: "decode_bytes [] = Inr []"
  by (subst decode_bytes.simps) simp

lemma decode_bytes_format_08b:
  assumes "c \<le> 255"
  shows "decode_bytes (format_08b c @ rest) =
           (case decode_bytes rest of Inl e \<Rightarrow> Inl e | Inr m \<Rightarrow> Inr (c # m))"
proof -
  have "take 8 (format_08b c @ rest) = format_08b c" "drop 8 (format_08b c @ rest) = rest"
    using length_format_08b [OF assms] by simp_all
  moreover have "py_chr c = Inr c" using assms by (simp add: py_chr_def)
  ultimately show ?thesis
    by (subst decode_bytes.simps) (simp add: int_base2_format_08b)
qed

lemma decode_bytes_message:
  "\<forall>c\<in>set m. c \<le> 255 \<Longrightarrow> decode_bytes (concat (map format_08b m)) = Inr m"
  by (induction m) (simp_all add: decode_bytes_format_08b)

lemma length_message_bits:
  "\<forall>c\<in>set m. c \<le> 255 \<Longrightarrow> length (concat (map format_08b m)) = 8 * length m"
  by (induction m) (simp_all add: length_format_08b)

lemma length_message_bits_ge: "8 * length m \<le> length (concat (map format_08b m))"
proof (induction m)
  case (Cons c m)
  then show ?case using length_format_08b_ge [of c] by simp
qed simp

lemma decode_bytes_step:
  assumes "binary s" "s \<noteq> []"
  shows "decode_bytes s =
           (case decode_bytes (drop 8 s) of
              Inl e \<Rightarrow> Inl e | Inr m \<Rightarrow> Inr (base2_value 0 (take 8 s) # m))"
proof -
  have "int_base2 (take 8 s) = Inr (base2_value 0 (take 8 s))"
    using assms by (intro int_base2_binary binary_take) simp_all
  moreover have "py_chr (base2_value 0 (take 8 s)) = Inr (base2_value 0 (take 8 s))"
    by (rule py_chr_short) simp
  ultimately show ?thesis using assms(2)
    by (subst decode_bytes.simps) simp
qed

lemma decode_bytes_total: "binary s \<Longrightarrow> \<exists>m. decode_bytes s = Inr m"
proof (induction s rule: length_induct)
  case (1 s)
  show ?case
  proof (cases "s = []")
    case True
    then show ?thesis by simp
  next
    case False
    then have "length (drop 8 s) < length s" by simp
    moreover have "binary (drop 8 s)" using 1(2) by (rule binary_drop)
    ultimately obtain m where "decode_bytes (drop 8 s) = Inr m"
      using 1(1) by blast
    then show ?thesis using decode_bytes_step [OF 1(2) False] by simp
  qed
qed

lemma decode_bytes_append:
  "binary a \<Longrightarrow> binary b \<Longrightarrow> 8 dvd length a \<Longrightarrow>
   decode_bytes a = Inr ma \<Longrightarrow> decode_bytes b = Inr mb \<Longrightarrow>
   decode_bytes (a @ b) = Inr (ma @ mb)"
proof (induction a arbitrary: ma rule: length_induct)
  case (1 a)
  show ?case
  proof (cases "a = []")
    case True
    with 1(5,6) show ?thesis by simp
  next
    case False
    with 1(4) have len: "8 \<le> length a" by (auto dest: dvd_imp_le)
    have bd: "binary (drop 8 a)" using 1(2) by (rule binary_drop)
    from decode_bytes_total [OF bd] obtain m' where m': "decode_bytes (drop 8 a) = Inr m'"
      by blast
    have ma: "ma = base2_value 0 (take 8 a) # m'"
      using decode_bytes_step [OF 1(2) False] m' 1(5) by simp
    have dv: "8 dvd length (drop 8 a)" using 1(4) len by (simp add: dvd_diff_nat)
    have lt: "length (drop 8 a) < length a" using False by simp
    have ih: "decode_bytes (drop 8 a @ b) = Inr (m' @ mb)"
      using 1(1) lt bd 1(3) dv m' 1(6) by blast
    have ab: "binary (a @ b)" "a @ b \<noteq> []" using 1(2,3) False by simp_all
    have t: "take 8 (a @ b) = take 8 a" using len by simp
    have d: "drop 8 (a @ b) = drop 8 a @ b" using len by simp
    show ?thesis
      unfolding decode_bytes_step [OF ab] t d ih ma by simp
  qed
qed

lemma decode_bytes_short:
  "binary b \<Longrightarrow> b \<noteq> [] \<Longrightarrow> length b \<le> 8 \<Longrightarrow> decode_bytes b = Inr [base2_value 0 b]"
  by (simp add: decode_bytes_step)

lemma lsb_stream_binary: "lsb_stream g = Inr bits \<Longrightarrow> binary bits"
proof -
  assume a: "lsb_stream g = Inr bits"
  then have "supported g" using lsb_stream_unsupported [of g] by auto
  then have "bits = concat (map str_lsb (channels g))"
    using a by (simp add: lsb_stream_supported)
  then show ?thesis by (auto intro!: binary_concat simp: str_lsb_binary)
qed

subsection \<open>The two functions on supported grids\<close>

lemma hide_message_channels:
  assumes "supported (getdata img)"
  shows "\<exists>img'. hide_message img m = Inr img' \<and> mode img' = mode img
           \<and> size_of img' = size_of img
           \<and> map shape_of (getdata img') = map shape_of (getdata img)
           \<and> channels (getdata img') = embed (binary_message_of m) (channels (getdata img))"
proof -
  from hide_loop_embed [OF binary_binary_message_of _ assms, of 0 m]
  obtain g' where g: "hide_loop (binary_message_of m) (getdata img) 0 = Inr g'"
    "channels g' = embed (binary_message_of m) (channels (getdata img))"
    "map shape_of g' = map shape_of (getdata img)" by auto
  then show ?thesis by (simp add: hide_message_def)
qed

lemma hide_message_supported: "hide_message img m = Inr img' \<Longrightarrow> supported (getdata img)"
proof (rule ccontr)
  assume a: "hide_message img m = Inr img'" and n: "\<not> supported (getdata img)"
  have "hide_loop (binary_message_of m) (getdata img) 0 = Inl ValueError_unpack"
    by (rule hide_loop_unsupported [OF binary_binary_message_of _ n]) simp
  with a show False by (simp add: hide_message_def)
qed

lemma hide_message_lsb_stream:
  assumes "supported (getdata img)" "hide_message img m = Inr img'"
  shows "lsb_stream (getdata img') =
           Inr (take (bit_count (getdata img)) (binary_message_of m)
                @ concat (map str_lsb (drop (length (binary_message_of m)) (channels (getdata img)))))"
proof -
  from hide_message_channels [OF assms(1), of m] assms(2)
  have c: "channels (getdata img') = embed (binary_message_of m) (channels (getdata img))"
    and s: "map shape_of (getdata img') = map shape_of (getdata img)" by auto
  have sup: "supported (getdata img')"
  proof -
    have "supported_pixel p = (shape_of p = Single \<or> shape_of p = Multi 3)" for p
      by (cases p) simp_all
    then have "supported g = list_all (\<lambda>x. x = Single \<or> x = Multi 3) (map shape_of g)" for g
      by (simp add: supported_def list_all_iff)
    with s assms(1) show ?thesis by simp
  qed
  show ?thesis
    unfolding lsb_stream_supported [OF sup] c bit_count_def
    by (simp add: lsb_embed binary_binary_message_of)
qed

section \<open>The worked examples\<close>

text \<open>
  Claim C8. Encoding the message "A" (code point 65) into the 4-pixel single-channel
  grid 10, 20, 30, 40 writes the first four payload digits 0, 1, 0, 0 and returns the
  grid 10, 21, 30, 40.
\<close>

theorem example_1_truncated_A:
  "take 4 (binary_message_of [65]) = ''0100'' \<and>
   length (binary_message_of [65]) = 24 \<and>
   hide_message \<lparr>mode = ''L'', size_of = (4, 1),
                   getdata = [PInt 10, PInt 20, PInt 30, PInt 40]\<rparr> [65]
     = Inr \<lparr>mode = ''L'', size_of = (4, 1),
              getdata = [PInt 10, PInt 21, PInt 30, PInt 40]\<rparr>"
  by code_simp

text \<open>
  Claim C9. For twelve single-channel pixels of value 100 and the message "Hi"
  (code points 72 and 105) the payload has 32 digits against 12 bit slots; the encoder
  writes the first 12 digits, none of them of the delimiter, and decoding the result
  returns the string "No message found".
\<close>

theorem example_2_truncated_Hi:
  "length (binary_message_of [72, 105]) = 32 \<and>
   bit_count (replicate 12 (PInt 100)) = 12 \<and>
   hide_message \<lparr>mode = ''L'', size_of = (12, 1), getdata = replicate 12 (PInt 100)\<rparr> [72, 105]
     = Inr \<lparr>mode = ''L'', size_of = (12, 1),
            getdata = [PInt 100, PInt 101, PInt 100, PInt 100, PInt 101, PInt 100,
                       PInt 100, PInt 100, PInt 100, PInt 101, PInt 101, PInt 100]\<rparr> \<and>
   lsb_stream [PInt 100, PInt 101, PInt 100, PInt 100, PInt 101, PInt 100,
               PInt 100, PInt 100, PInt 100, PInt 101, PInt 101, PInt 100]
     = Inr ''010010000110'' \<and>
   str_find ''010010000110'' delimiter = -1 \<and>
   extract_message \<lparr>mode = ''L'', size_of = (12, 1),
                     getdata = [PInt 100, PInt 101, PInt 100, PInt 100, PInt 101, PInt 100,
                                PInt 100, PInt 100, PInt 100, PInt 101, PInt 101, PInt 100]\<rparr>
     = Inr no_message_found \<and>
   round_trip \<lparr>mode = ''L'', size_of = (12, 1), getdata = replicate 12 (PInt 100)\<rparr> [72, 105]
     = Inr no_message_found"
  by code_simp

section \<open>The round trip\<close>

lemma message_bits_payload: "binary_message_of m = message_bits m @ delimiter"
  by (simp add: binary_message_of_def message_bits_def)

text \<open>
  Claim C1, as amended. For every image whose pixels are integers or 3-channel tuples
  and every message whose code points are all at most 255, if the message's own digits
  do not contain the 16-digit delimiter and \<open>8 * len(m) + 16\<close> is at most the grid's
  bit count, then decoding the encoded image returns exactly the message.
\<close>

theorem round_trip_without_delimiter_in_message:
  assumes sup: "supported (getdata img)"
    and range: "\<forall>c\<in>set m. c \<le> 255"
    and cap: "8 * length m + 16 \<le> bit_count (getdata img)"
    and clean: "str_find (message_bits m) delimiter = -1"
  shows "round_trip img m = Inr m"
proof -
  let ?bm = "binary_message_of m"
  let ?rest = "concat (map str_lsb (drop (length ?bm) (channels (getdata img))))"
  from hide_message_channels [OF sup, of m] obtain img' where
    h: "hide_message img m = Inr img'" by blast
  have len: "length ?bm = 8 * length m + 16"
    using range by (simp add: binary_message_of_def length_message_bits)
  have "lsb_stream (getdata img') = Inr (take (bit_count (getdata img)) ?bm @ ?rest)"
    by (rule hide_message_lsb_stream [OF sup h])
  with cap len have s: "lsb_stream (getdata img') = Inr (message_bits m @ delimiter @ ?rest)"
    by (simp add: message_bits_payload)
  have f: "str_find (message_bits m @ delimiter @ ?rest) delimiter = int (length (message_bits m))"
    by (rule str_find_payload [OF clean])
  have "decode_bytes (message_bits m) = Inr m"
    unfolding message_bits_def by (rule decode_bytes_message [OF range])
  with s f have "extract_message img' = Inr m"
    by (simp add: extract_message_def)
  with h show ?thesis by (simp add: round_trip_def)
qed

text \<open>
  The amended round trip at a concrete input: the message "AB" in a 32-pixel
  single-channel image of zeros.
\<close>

theorem round_trip_without_delimiter_in_message_witness:
  "supported (getdata \<lparr>mode = ''L'', size_of = (32, 1), getdata = replicate 32 (PInt 0)\<rparr>) \<and>
   list_all (\<lambda>c. c \<le> 255) [65, 66 :: nat] \<and>
   8 * length [65, 66 :: nat] + 16 \<le>
     bit_count (getdata \<lparr>mode = ''L'', size_of = (32, 1), getdata = replicate 32 (PInt 0)\<rparr>) \<and>
   str_find (message_bits [65, 66]) delimiter = -1 \<and>
   round_trip \<lparr>mode = ''L'', size_of = (32, 1), getdata = replicate 32 (PInt 0)\<rparr> [65, 66]
     = Inr [65, 66]"
proof -
  let ?img = "\<lparr>mode = ''L'', size_of = (32, 1), getdata = replicate 32 (PInt 0)\<rparr>"
  have 1: "supported (getdata ?img)" by code_simp
  have 2: "\<forall>c\<in>set [65, 66 :: nat]. c \<le> 255" by simp
  have 3: "8 * length [65, 66 :: nat] + 16 \<le> bit_count (getdata ?img)" by code_simp
  have 4: "str_find (message_bits [65, 66]) delimiter = -1" by code_simp
  from round_trip_without_delimiter_in_message [OF 1 2 3 4] 1 3 4 show ?thesis by simp
qed

text \<open>
  Claim C1 as stated fails: the two characters with code points 255 and 254 spell the
  delimiter themselves. In a 32-pixel single-channel image, which has exactly the
  required 32 bit slots, the decoder finds the delimiter at index 0 and returns the
  empty message.
\<close>

theorem round_trip_counterexample:
  "supported (getdata \<lparr>mode = ''L'', size_of = (32, 1), getdata = replicate 32 (PInt 0)\<rparr>) \<and>
   list_all (\<lambda>c. c \<le> 255) [255, 254 :: nat] \<and>
   8 * length [255, 254 :: nat] + 16 \<le>
     bit_count (getdata \<lparr>mode = ''L'', size_of = (32, 1), getdata = replicate 32 (PInt 0)\<rparr>) \<and>
   round_trip \<lparr>mode = ''L'', size_of = (32, 1), getdata = replicate 32 (PInt 0)\<rparr> [255, 254]
     = Inr []"
  by code_simp

section \<open>What the encoder changes\<close>

lemma lsb_and_one: "(str_lsb v = [c]) = (c = (if v AND 1 = 0 then CHR ''0'' else CHR ''1''))"
  by (auto simp: str_lsb_def)

text \<open>
  Claim C2. Whenever \<^verbatim>\<open>hide_message\<close> returns an image (which it does for every image
  whose pixels are integers or 3-channel tuples), that image has the mode and size of
  the input, the same pixel shapes in the same order and hence the same number of
  channels; every channel at a scan-order position at or beyond the payload length is
  the input's channel; and every channel at a position before the payload length has
  its lowest bit equal to the payload digit at that position, and all its bits above
  the lowest equal to those of the input channel.
\<close>

theorem hide_message_frame:
  "(supported (getdata img) \<longrightarrow> (\<exists>img'. hide_message img m = Inr img')) \<and>
   (\<forall>img'. hide_message img m = Inr img' \<longrightarrow>
      mode img' = mode img \<and> size_of img' = size_of img \<and>
      map shape_of (getdata img') = map shape_of (getdata img) \<and>
      bit_count (getdata img') = bit_count (getdata img) \<and>
      (\<forall>k < bit_count (getdata img).
         (length (binary_message_of m) \<le> k \<longrightarrow>
            channels (getdata img') ! k = channels (getdata img) ! k) \<and>
         (k < length (binary_message_of m) \<longrightarrow>
            channels (getdata img') ! k AND 1 = bit_val (binary_message_of m ! k) \<and>
            str_lsb (channels (getdata img') ! k) = [binary_message_of m ! k] \<and>
            drop_bit 1 (channels (getdata img') ! k)
              = drop_bit 1 (channels (getdata img) ! k))))"
proof (intro conjI impI allI)
  assume "supported (getdata img)"
  from hide_message_channels [OF this, of m]
  show "\<exists>img'. hide_message img m = Inr img'" by blast
next
  fix img'
  assume h: "hide_message img m = Inr img'"
  then have sup: "supported (getdata img)" by (rule hide_message_supported)
  from hide_message_channels [OF sup, of m] h
  have c: "channels (getdata img') = embed (binary_message_of m) (channels (getdata img))"
    and s: "map shape_of (getdata img') = map shape_of (getdata img)"
    and ms: "mode img' = mode img" "size_of img' = size_of img" by auto
  show "mode img' = mode img" "size_of img' = size_of img"
    "map shape_of (getdata img') = map shape_of (getdata img)" by fact+
  show "bit_count (getdata img') = bit_count (getdata img)"
    by (simp add: bit_count_def c)
  fix k
  assume k: "k < bit_count (getdata img)"
  then have k': "k < length (channels (getdata img))" by (simp add: bit_count_def)
  {
    assume "length (binary_message_of m) \<le> k"
    then show "channels (getdata img') ! k = channels (getdata img) ! k"
      unfolding c nth_embed [OF k'] by simp
  }
  assume p: "k < length (binary_message_of m)"
  let ?c = "binary_message_of m ! k"
  let ?v = "channels (getdata img) ! k"
  have v': "channels (getdata img') ! k = (?v AND NOT 1) OR bit_val ?c"
    unfolding c nth_embed [OF k'] using p by simp
  have b: "?c = CHR ''0'' \<or> ?c = CHR ''1''"
    using binary_binary_message_of p by (rule binary_nth)
  then have d: "bit_val ?c = 0 \<or> bit_val ?c = 1" by (auto simp: bit_val_def)
  show "channels (getdata img') ! k AND 1 = bit_val ?c"
    unfolding v' using d by (rule lsb_set_and)
  show "str_lsb (channels (getdata img') ! k) = [?c]"
    unfolding v' using b by (rule str_lsb_set)
  show "drop_bit 1 (channels (getdata img') ! k) = drop_bit 1 ?v"
    unfolding v' using d by (rule lsb_set_drop)
qed


text \<open>
  The frame property at a concrete input: the empty message in six RGB pixels
  (10, 20, 30). The 16 payload digits fill channels 0 to 15; channels 16 and 17 stay.
\<close>

theorem hide_message_frame_witness:
  "supported (getdata \<lparr>mode = ''RGB'', size_of = (6, 1), getdata = replicate 6 (PTuple [10, 20, 30])\<rparr>) \<and>
   hide_message \<lparr>mode = ''RGB'', size_of = (6, 1), getdata = replicate 6 (PTuple [10, 20, 30])\<rparr> []
     = Inr \<lparr>mode = ''RGB'', size_of = (6, 1),
            getdata = replicate 5 (PTuple [11, 21, 31]) @ [PTuple [10, 20, 30]]\<rparr> \<and>
   channels (replicate 5 (PTuple [11, 21, 31]) @ [PTuple [10, 20, 30]]) ! 17
     = channels (replicate 6 (PTuple [10, 20, 30])) ! 17 \<and>
   channels (replicate 5 (PTuple [11, 21, 31]) @ [PTuple [10, 20, 30]]) ! 0 AND 1
     = bit_val (binary_message_of [] ! 0) \<and>
   drop_bit 1 (channels (replicate 5 (PTuple [11, 21, 31]) @ [PTuple [10, 20, 30]]) ! 0)
     = drop_bit 1 (channels (replicate 6 (PTuple [10, 20, 30])) ! 0)"
proof -
  let ?I = "\<lparr>mode = ''RGB'', size_of = (6, 1), getdata = replicate 6 (PTuple [10, 20, 30])\<rparr>"
  let ?I' = "\<lparr>mode = ''RGB'', size_of = (6, 1),
              getdata = replicate 5 (PTuple [11, 21, 31]) @ [PTuple [10, 20, 30]]\<rparr>"
  have s: "supported (getdata ?I)" by code_simp
  have h: "hide_message ?I [] = Inr ?I'" by code_simp
  have k17: "17 < bit_count (getdata ?I)" "length (binary_message_of []) \<le> 17" by code_simp+
  have k0: "0 < bit_count (getdata ?I)" "0 < length (binary_message_of [])" by code_simp+
  from hide_message_frame [of ?I "[]"] h
  have f: "\<forall>k < bit_count (getdata ?I).
         (length (binary_message_of []) \<le> k \<longrightarrow>
            channels (getdata ?I') ! k = channels (getdata ?I) ! k) \<and>
         (k < length (binary_message_of []) \<longrightarrow>
            channels (getdata ?I') ! k AND 1 = bit_val (binary_message_of [] ! k) \<and>
            str_lsb (channels (getdata ?I') ! k) = [binary_message_of [] ! k] \<and>
            drop_bit 1 (channels (getdata ?I') ! k)
              = drop_bit 1 (channels (getdata ?I) ! k))" by blast
  from f k17 have a: "channels (getdata ?I') ! 17 = channels (getdata ?I) ! 17" by blast
  from f k0 have b: "channels (getdata ?I') ! 0 AND 1 = bit_val (binary_message_of [] ! 0)"
    "drop_bit 1 (channels (getdata ?I') ! 0) = drop_bit 1 (channels (getdata ?I) ! 0)"
    by blast+
  from s h a b show ?thesis by simp
qed

section \<open>Insufficient capacity\<close>

lemma length_payload_ge: "8 * length m + 16 \<le> length (binary_message_of m)"
  using length_message_bits_ge [of m] by (simp add: binary_message_of_def)

text \<open>
  Claim C5, as amended. For every image whose pixels are integers or 3-channel
  tuples and every
  message with \<open>8 * len(m) + 16\<close> above the grid's bit count, the encoder does not
  fail: it returns an image of the same mode, size and number of pixels and channels,
  whose lowest bits, read in scan order, are exactly the first \<open>bit_count\<close> digits of
  the payload (the message digits followed by the delimiter); the later payload
  digits are dropped.
\<close>

theorem hide_message_truncates:
  assumes sup: "supported (getdata img)"
    and over: "bit_count (getdata img) < 8 * length m + 16"
  shows "\<exists>img'. hide_message img m = Inr img' \<and>
           mode img' = mode img \<and> size_of img' = size_of img \<and>
           length (getdata img') = length (getdata img) \<and>
           bit_count (getdata img') = bit_count (getdata img) \<and>
           lsb_stream (getdata img')
             = Inr (take (bit_count (getdata img)) (binary_message_of m))"
proof -
  from hide_message_channels [OF sup, of m] obtain img' where
    h: "hide_message img m = Inr img'" and ms: "mode img' = mode img" "size_of img' = size_of img"
    and s: "map shape_of (getdata img') = map shape_of (getdata img)"
    and c: "channels (getdata img') = embed (binary_message_of m) (channels (getdata img))"
    by blast
  from s have l: "length (getdata img') = length (getdata img)"
    by (rule map_eq_imp_length_eq)
  have b: "bit_count (getdata img') = bit_count (getdata img)"
    by (simp add: bit_count_def c)
  from over length_payload_ge [of m]
  have "length (channels (getdata img)) \<le> length (binary_message_of m)"
    by (simp add: bit_count_def)
  then have "drop (length (binary_message_of m)) (channels (getdata img)) = []" by simp
  with hide_message_lsb_stream [OF sup h]
  have "lsb_stream (getdata img') = Inr (take (bit_count (getdata img)) (binary_message_of m))"
    by simp
  with h ms l b show ?thesis by blast
qed

text \<open>
  Truncation at a concrete input: the message "A" in four single-channel pixels.
\<close>

theorem hide_message_truncates_witness:
  "supported (getdata \<lparr>mode = ''L'', size_of = (4, 1),
                        getdata = [PInt 11, PInt 20, PInt 31, PInt 41]\<rparr>) \<and>
   bit_count (getdata \<lparr>mode = ''L'', size_of = (4, 1),
                        getdata = [PInt 11, PInt 20, PInt 31, PInt 41]\<rparr>)
     < 8 * length [65 :: nat] + 16 \<and>
   (\<exists>img'. hide_message \<lparr>mode = ''L'', size_of = (4, 1),
                           getdata = [PInt 11, PInt 20, PInt 31, PInt 41]\<rparr> [65] = Inr img' \<and>
      size_of img' = (4, 1) \<and> length (getdata img') = 4 \<and>
      lsb_stream (getdata img') = Inr ''0100'')"
proof -
  let ?I = "\<lparr>mode = ''L'', size_of = (4, 1), getdata = [PInt 11, PInt 20, PInt 31, PInt 41]\<rparr>"
  have 1: "supported (getdata ?I)" by code_simp
  have 2: "bit_count (getdata ?I) < 8 * length [65 :: nat] + 16" by code_simp
  have 3: "take (bit_count (getdata ?I)) (binary_message_of [65]) = ''0100''" by code_simp
  from hide_message_truncates [OF 1 2] obtain img' where
    a: "hide_message ?I [65] = Inr img'" "size_of img' = size_of ?I"
       "length (getdata img') = length (getdata ?I)"
       "lsb_stream (getdata img')
          = Inr (take (bit_count (getdata ?I)) (binary_message_of [65]))" by blast
  from a(2) have b: "size_of img' = (4, 1)" by simp
  from a(3) have c: "length (getdata img') = 4" by simp
  from a(4) have d: "lsb_stream (getdata img') = Inr ''0100''" unfolding 3 .
  from a(1) b c d
  have "\<exists>img'. hide_message ?I [65] = Inr img' \<and>
      size_of img' = (4, 1) \<and> length (getdata img') = 4 \<and>
      lsb_stream (getdata img') = Inr ''0100''" by blast
  with 1 2 show ?thesis by blast
qed

text \<open>
  Claim C5 as stated, for every grid, fails: two RGBA pixels have 8 bit slots, fewer
  than the 24 payload digits of the message "A", and the encoder raises at the
  unpacking \<^verbatim>\<open>r, g, b = pixel\<close>.
\<close>

theorem truncation_counterexample:
  "bit_count (getdata rgba_even) = 8 \<and>
   bit_count (getdata rgba_even) < 8 * length [65 :: nat] + 16 \<and>
   hide_message rgba_even [65] = Inl ValueError_unpack"
proof -
  have 1: "bit_count (getdata rgba_even) = 8"
    by (simp add: rgba_even_def bit_count_def channels_def)
  have 2: "bit_count (getdata rgba_even) < 8 * length [65 :: nat] + 16"
    unfolding 1 by simp
  have "hide_pixel (binary_message_of [65]) (PTuple [0, 0, 0, 254]) 0 = Inl ValueError_unpack"
    by simp
  then have 3: "hide_message rgba_even [65] = Inl ValueError_unpack"
    by (simp add: hide_message_def rgba_even_def)
  show ?thesis by (intro conjI 1 2 3)
qed

section \<open>Pixels that are not 3-channel tuples\<close>

text \<open>
  Claim C10. For every image that contains a tuple pixel whose channel count is not 3,
  both \<^verbatim>\<open>hide_message\<close> (with any message) and \<^verbatim>\<open>extract_message\<close> fail, and
  they fail at the unpacking \<^verbatim>\<open>r, g, b = pixel\<close>.
\<close>

theorem non_rgb_tuple_fails:
  assumes "PTuple cs \<in> set (getdata img)" "length cs \<noteq> 3"
  shows "hide_message img m = Inl ValueError_unpack \<and>
         extract_message img = Inl ValueError_unpack"
proof -
  from assms have n: "\<not> supported (getdata img)"
    by (auto simp: supported_iff)
  have "hide_loop (binary_message_of m) (getdata img) 0 = Inl ValueError_unpack"
    by (rule hide_loop_unsupported [OF binary_binary_message_of _ n]) simp
  moreover have "lsb_stream (getdata img) = Inl ValueError_unpack"
    by (rule lsb_stream_unsupported [OF n])
  ultimately show ?thesis
    by (simp add: hide_message_def extract_message_def)
qed

text \<open>The failure at a concrete input: two RGBA pixels.\<close>

theorem non_rgb_tuple_fails_witness:
  "PTuple [255, 0, 0, 255] \<in>
     set (getdata \<lparr>mode = ''RGBA'', size_of = (2, 1),
                    getdata = [PTuple [0, 0, 0, 255], PTuple [255, 0, 0, 255]]\<rparr>) \<and>
   length [255, 0, 0, 255 :: int] \<noteq> 3 \<and>
   hide_message \<lparr>mode = ''RGBA'', size_of = (2, 1),
                  getdata = [PTuple [0, 0, 0, 255], PTuple [255, 0, 0, 255]]\<rparr> [65]
     = Inl ValueError_unpack \<and>
   extract_message \<lparr>mode = ''RGBA'', size_of = (2, 1),
                     getdata = [PTuple [0, 0, 0, 255], PTuple [255, 0, 0, 255]]\<rparr>
     = Inl ValueError_unpack"
proof -
  let ?I = "\<lparr>mode = ''RGBA'', size_of = (2, 1),
             getdata = [PTuple [0, 0, 0, 255], PTuple [255, 0, 0, 255]]\<rparr>"
  have 1: "PTuple [255, 0, 0, 255] \<in> set (getdata ?I)" by simp
  have 2: "length [255, 0, 0, 255 :: int] \<noteq> 3" by simp
  from non_rgb_tuple_fails [OF 1 2, of "[65]"] 1 2 show ?thesis by blast
qed

section \<open>Characters above code point 255\<close>

text \<open>
  Claim C4, as amended. For every image whose pixels are integers or 3-channel tuples
  and every message containing a character \<open>c\<close> with code point above 255, the encoder
  does not fail: it returns an image, and \<open>c\<close> contributes all its binary digits, more
  than 8 of them, to the payload, which is therefore longer than
  \<open>8 * len(m) + 16\<close>.
\<close>

theorem hide_message_no_range_check:
  assumes sup: "supported (getdata img)" and c: "c \<in> set m" and big: "255 < c"
  shows "(\<exists>img'. hide_message img m = Inr img') \<and>
         8 < length (format_08b c) \<and> int_base2 (format_08b c) = Inr c \<and>
         8 * length m + 16 < length (binary_message_of m)"
proof -
  from hide_message_channels [OF sup, of m]
  have 1: "\<exists>img'. hide_message img m = Inr img'" by blast
  have 2: "8 < length (format_08b c)" using big by (rule length_format_08b_big)
  from c obtain xs ys where m: "m = xs @ c # ys" by (auto simp: in_set_conv_decomp)
  have "8 * length xs + 8 * length ys + 8 < length (message_bits m)"
    using length_message_bits_ge [of xs] length_message_bits_ge [of ys] 2
    by (simp add: m message_bits_def)
  then have 3: "8 * length m + 16 < length (binary_message_of m)"
    by (simp add: message_bits_payload m)
  from 1 2 3 show ?thesis by (simp add: int_base2_format_08b)
qed

text \<open>
  The amended claim at a concrete input: the one-character message with code point 256.
\<close>

theorem hide_message_no_range_check_witness:
  "supported (getdata \<lparr>mode = ''L'', size_of = (12, 1), getdata = replicate 12 (PInt 0)\<rparr>) \<and>
   (256 :: nat) \<in> set [256] \<and> (255 :: nat) < 256 \<and>
   (\<exists>img'. hide_message \<lparr>mode = ''L'', size_of = (12, 1),
                           getdata = replicate 12 (PInt 0)\<rparr> [256] = Inr img') \<and>
   8 < length (format_08b 256) \<and> int_base2 (format_08b 256) = Inr 256 \<and>
   8 * length [256 :: nat] + 16 < length (binary_message_of [256])"
proof -
  let ?I = "\<lparr>mode = ''L'', size_of = (12, 1), getdata = replicate 12 (PInt 0)\<rparr>"
  have 1: "supported (getdata ?I)" by code_simp
  have 2: "(256 :: nat) \<in> set [256]" by simp
  have 3: "(255 :: nat) < 256" by simp
  from hide_message_no_range_check [OF 1 2 3] 1 show ?thesis by simp
qed

text \<open>
  Claim C4 as stated fails: for the one-character message with code point 256 and
  twelve single-channel pixels of value 0 the encoder raises nothing; it returns an
  image carrying the first twelve digits of a 25-digit payload, nine of which come from
  the character.
\<close>

theorem range_error_counterexample:
  "hide_message \<lparr>mode = ''L'', size_of = (12, 1), getdata = replicate 12 (PInt 0)\<rparr> [256]
     = Inr \<lparr>mode = ''L'', size_of = (12, 1),
            getdata = [PInt 1, PInt 0, PInt 0, PInt 0, PInt 0, PInt 0,
                       PInt 0, PInt 0, PInt 0, PInt 1, PInt 1, PInt 1]\<rparr> \<and>
   binary_message_of [256] = ''1000000001111111111111110''"
  by code_simp

section \<open>What the decoder reads\<close>

lemma binary_lsb_of_channels: "binary (lsb_of_channels g)"
  unfolding lsb_of_channels_def by (auto intro!: binary_concat simp: str_lsb_binary)

lemma occurs_at_bound: "sub \<noteq> [] \<Longrightarrow> occurs_at sub s i \<Longrightarrow> i + length sub \<le> length s"
proof -
  assume n: "sub \<noteq> []" and o: "occurs_at sub s i"
  then have "length (take (length sub) (drop i s)) = length sub"
    by (simp add: occurs_at_def)
  then have "min (length s - i) (length sub) = length sub" by (simp add: min.commute)
  moreover have "0 < length sub" using n by simp
  ultimately show ?thesis by linarith
qed

lemma extract_message_at:
  assumes sup: "supported (getdata img)"
    and at: "occurs_at delimiter (lsb_of_channels (getdata img)) i"
    and first: "\<forall>j<i. \<not> occurs_at delimiter (lsb_of_channels (getdata img)) j"
  shows "extract_message img = decode_bytes (take i (lsb_of_channels (getdata img)))"
proof -
  have s: "lsb_stream (getdata img) = Inr (lsb_of_channels (getdata img))"
    unfolding lsb_of_channels_def by (rule lsb_stream_supported [OF sup])
  have f: "str_find (lsb_of_channels (getdata img)) delimiter = int i"
    by (rule str_find_first [OF delimiter_not_Nil at first])
  show ?thesis by (simp add: extract_message_def s f)
qed

text \<open>
  Claim C3, as amended. For every image whose pixels are integers or 3-channel
  tuples, the bit
  string the decoder accumulates is the lowest bit of each channel in scan order
  (pixels in order, the channels of a tuple in the order r, g, b); and if the
  delimiter occurs in it at index \<open>i\<close> and at no smaller index, then the decoder finds
  exactly this index and returns the message decoded from the \<open>i\<close> digits before it.
\<close>

theorem extract_message_first_delimiter:
  assumes sup: "supported (getdata img)"
  shows "lsb_stream (getdata img) = Inr (lsb_of_channels (getdata img)) \<and>
         (\<forall>i. occurs_at delimiter (lsb_of_channels (getdata img)) i \<and>
              (\<forall>j<i. \<not> occurs_at delimiter (lsb_of_channels (getdata img)) j) \<longrightarrow>
              str_find (lsb_of_channels (getdata img)) delimiter = int i \<and>
              extract_message img = decode_bytes (take i (lsb_of_channels (getdata img))) \<and>
              (\<exists>msg. extract_message img = Inr msg))"
proof (intro conjI allI impI)
  show "lsb_stream (getdata img) = Inr (lsb_of_channels (getdata img))"
    unfolding lsb_of_channels_def by (rule lsb_stream_supported [OF sup])
next
  fix i
  assume a: "occurs_at delimiter (lsb_of_channels (getdata img)) i \<and>
             (\<forall>j<i. \<not> occurs_at delimiter (lsb_of_channels (getdata img)) j)"
  then have at: "occurs_at delimiter (lsb_of_channels (getdata img)) i"
    and first: "\<forall>j<i. \<not> occurs_at delimiter (lsb_of_channels (getdata img)) j" by simp_all
  show "str_find (lsb_of_channels (getdata img)) delimiter = int i"
    by (rule str_find_first [OF delimiter_not_Nil at first])
  show e: "extract_message img = decode_bytes (take i (lsb_of_channels (getdata img)))"
    by (rule extract_message_at [OF sup at first])
  have "binary (take i (lsb_of_channels (getdata img)))"
    by (rule binary_take [OF binary_lsb_of_channels])
  from decode_bytes_total [OF this] e show "\<exists>msg. extract_message img = Inr msg" by simp
qed

text \<open>
  The first occurrence at a concrete input: the delimiter starts at index 8, and the
  eight digits before it decode to the character A.
\<close>

theorem extract_message_first_delimiter_witness:
  "supported (getdata stego_A) \<and>
   lsb_of_channels (getdata stego_A) = ''0100000111111111111111101'' \<and>
   str_find ''0100000111111111111111101'' delimiter = 8 \<and>
   extract_message stego_A = decode_bytes ''01000001'' \<and>
   decode_bytes ''01000001'' = Inr [65]"
proof -
  have 1: "supported (getdata stego_A)" by code_simp
  have 2: "lsb_of_channels (getdata stego_A) = ''0100000111111111111111101''"
    by (simp add: stego_A_def lsb_of_channels_def channels_def str_lsb_def)
  have 3: "str_find ''0100000111111111111111101'' delimiter = 8" by code_simp
  have f: "str_find (lsb_of_channels (getdata stego_A)) delimiter = int 8"
    unfolding 2 3 by simp
  have "str_find (lsb_of_channels (getdata stego_A)) delimiter \<noteq> -1"
    unfolding f by simp
  from str_find_found [OF delimiter_not_Nil this] obtain i where
    i: "str_find (lsb_of_channels (getdata stego_A)) delimiter = int i"
       "occurs_at delimiter (lsb_of_channels (getdata stego_A)) i"
       "\<forall>j<i. \<not> occurs_at delimiter (lsb_of_channels (getdata stego_A)) j" by blast
  from i(1) have "i = 8" unfolding f by simp
  with i(2,3) have 4: "occurs_at delimiter (lsb_of_channels (getdata stego_A)) 8 \<and>
        (\<forall>j<8. \<not> occurs_at delimiter (lsb_of_channels (getdata stego_A)) j)"
    by simp
  have 5: "take 8 (lsb_of_channels (getdata stego_A)) = ''01000001''"
    unfolding 2 by simp
  have 6: "decode_bytes ''01000001'' = Inr [65]" by (simp add: decode_bytes_short)
  have "extract_message stego_A = decode_bytes (take 8 (lsb_of_channels (getdata stego_A)))"
    by (rule extract_message_first_delimiter
          [OF 1, THEN conjunct2, rule_format, OF 4, THEN conjunct2, THEN conjunct1])
  then have 7: "extract_message stego_A = decode_bytes ''01000001''" unfolding 5 .
  show ?thesis by (intro conjI 1 2 3 7 6)
qed

text \<open>
  Claim C3 as stated, for every grid, fails: in eight two-channel pixels whose lowest
  bits are exactly the delimiter, the delimiter occurs at index 0 of the stream of
  lowest bits, so the claim has the decoder return the empty message; the decoder
  raises at the unpacking \<^verbatim>\<open>r, g, b = pixel\<close> instead.
\<close>

theorem first_delimiter_counterexample:
  "lsb_of_channels (getdata la_terminator) = ''1111111111111110'' \<and>
   occurs_at delimiter ''1111111111111110'' 0 \<and>
   extract_message la_terminator = Inl ValueError_unpack"
proof -
  have 1: "lsb_of_channels (getdata la_terminator) = ''1111111111111110''"
    by (simp add: la_terminator_def lsb_of_channels_def channels_def str_lsb_def)
  have 2: "occurs_at delimiter ''1111111111111110'' 0"
    by (simp add: occurs_at_def delimiter_def)
  have 3: "extract_message la_terminator = Inl ValueError_unpack"
    by (simp add: extract_message_def la_terminator_def)
  show ?thesis by (intro conjI 1 2 3)
qed

lemma str_lsb_even: "even v \<Longrightarrow> str_lsb v = ''0''"
  by (simp add: str_lsb_def and_one_eq)

lemma lsb_all_even:
  "\<forall>v\<in>set vs. even v \<Longrightarrow> concat (map str_lsb vs) = replicate (length vs) CHR ''0''"
  by (induction vs) (simp_all add: str_lsb_even)

lemma no_delimiter_in_zeros: "\<not> occurs_at delimiter (replicate n CHR ''0'') j"
proof
  assume "occurs_at delimiter (replicate n CHR ''0'') j"
  then have "delimiter = take 16 (drop j (replicate n CHR ''0''))"
    by (simp add: occurs_at_def)
  then have "set delimiter \<subseteq> set (replicate n CHR ''0'')"
    by (metis set_drop_subset set_take_subset subset_trans)
  moreover have "CHR ''1'' \<in> set delimiter" by (simp add: delimiter_def)
  ultimately show False by auto
qed

text \<open>
  Claim C6, as amended. For every image whose pixels are integers or 3-channel
  tuples: if the
  stream of lowest bits contains no occurrence of the delimiter, the decoder returns
  the string "No message found" and raises nothing; in particular it does so when all
  channel values are even.
\<close>

theorem extract_message_not_found:
  assumes sup: "supported (getdata img)"
  shows "((\<forall>j. \<not> occurs_at delimiter (lsb_of_channels (getdata img)) j) \<longrightarrow>
            extract_message img = Inr no_message_found) \<and>
         ((\<forall>v\<in>set (channels (getdata img)). even v) \<longrightarrow>
            extract_message img = Inr no_message_found)"
proof -
  have s: "lsb_stream (getdata img) = Inr (lsb_of_channels (getdata img))"
    unfolding lsb_of_channels_def by (rule lsb_stream_supported [OF sup])
  have a: "extract_message img = Inr no_message_found"
    if "\<forall>j. \<not> occurs_at delimiter (lsb_of_channels (getdata img)) j"
  proof -
    from that have "str_find (lsb_of_channels (getdata img)) delimiter = -1"
      by (simp add: str_find_none)
    then show ?thesis by (simp add: extract_message_def s)
  qed
  have b: "extract_message img = Inr no_message_found"
    if "\<forall>v\<in>set (channels (getdata img)). even v"
  proof -
    from that have "lsb_of_channels (getdata img)
        = replicate (length (channels (getdata img))) CHR ''0''"
      unfolding lsb_of_channels_def by (rule lsb_all_even)
    then have "\<forall>j. \<not> occurs_at delimiter (lsb_of_channels (getdata img)) j"
      by (simp add: no_delimiter_in_zeros)
    then show ?thesis by (rule a)
  qed
  from a b show ?thesis by blast
qed

text \<open>
  Both cases at concrete inputs: an image of even channel values, and an image of odd
  channel values, whose stream of ones never reaches the delimiter's final zero.
\<close>

theorem extract_message_not_found_witness:
  "supported (getdata clean_even) \<and>
   list_all even (channels (getdata clean_even)) \<and>
   extract_message clean_even = Inr no_message_found \<and>
   supported (getdata clean_odd) \<and>
   str_find (lsb_of_channels (getdata clean_odd)) delimiter = -1 \<and>
   extract_message clean_odd = Inr no_message_found"
proof -
  have 1: "supported (getdata clean_even)" by code_simp
  have 2: "list_all even (channels (getdata clean_even))"
    by (simp add: clean_even_def channels_def eval_nat_numeral)
  then have ev: "\<forall>v\<in>set (channels (getdata clean_even)). even v"
    by (simp add: list_all_iff)
  have 3: "extract_message clean_even = Inr no_message_found"
    by (rule extract_message_not_found [OF 1, THEN conjunct2, THEN mp, OF ev])
  have 4: "supported (getdata clean_odd)" by code_simp
  have 5: "str_find (lsb_of_channels (getdata clean_odd)) delimiter = -1" by code_simp
  then have no: "\<forall>j. \<not> occurs_at delimiter (lsb_of_channels (getdata clean_odd)) j"
    by (simp add: str_find_none)
  have 6: "extract_message clean_odd = Inr no_message_found"
    by (rule extract_message_not_found [OF 4, THEN conjunct1, THEN mp, OF no])
  show ?thesis by (intro conjI 1 2 3 4 5 6)
qed

text \<open>
  Claim C6 as stated, for every grid, fails: the channel values of two RGBA pixels are
  all even, their lowest bits contain no delimiter, and the decoder raises at the
  unpacking \<^verbatim>\<open>r, g, b = pixel\<close>.
\<close>

theorem not_found_counterexample:
  "list_all even (channels (getdata rgba_even)) \<and>
   lsb_of_channels (getdata rgba_even) = ''00000000'' \<and>
   str_find ''00000000'' delimiter = -1 \<and>
   extract_message rgba_even = Inl ValueError_unpack"
proof -
  have 1: "list_all even (channels (getdata rgba_even))"
    by (simp add: rgba_even_def channels_def)
  have 2: "lsb_of_channels (getdata rgba_even) = ''00000000''"
    by (simp add: rgba_even_def lsb_of_channels_def channels_def str_lsb_def)
  have 3: "str_find ''00000000'' delimiter = -1" by code_simp
  have 4: "extract_message rgba_even = Inl ValueError_unpack"
    by (simp add: extract_message_def rgba_even_def)
  show ?thesis by (intro conjI 1 2 3 4)
qed

section \<open>An incomplete trailing group\<close>

lemma length_decode_bytes:
  "binary s \<Longrightarrow> 8 dvd length s \<Longrightarrow> decode_bytes s = Inr m \<Longrightarrow> length m = length s div 8"
proof (induction s arbitrary: m rule: length_induct)
  case (1 s)
  show ?case
  proof (cases "s = []")
    case True
    with 1(4) show ?thesis by simp
  next
    case False
    with 1(3) have len: "8 \<le> length s" by (auto dest: dvd_imp_le)
    have bd: "binary (drop 8 s)" using 1(2) by (rule binary_drop)
    from decode_bytes_total [OF bd] obtain m' where m': "decode_bytes (drop 8 s) = Inr m'"
      by blast
    have m: "m = base2_value 0 (take 8 s) # m'"
      using decode_bytes_step [OF 1(2) False] m' 1(4) by simp
    have dv: "8 dvd length (drop 8 s)" using 1(3) len by (simp add: dvd_diff_nat)
    have lt: "length (drop 8 s) < length s" using False by simp
    have ih: "length m' = length (drop 8 s) div 8"
      using 1(1) lt bd dv m' by blast
    have e: "length s - 8 + 8 = length s" using len by simp
    have "(length s - 8 + 8) div 8 = (length s - 8) div 8 + 1" by simp
    then have "length s div 8 = (length s - 8) div 8 + 1" unfolding e .
    then show ?thesis by (simp add: m ih)
  qed
qed

text \<open>
  Claim C7, as amended. For every image whose pixels are integers or 3-channel tuples
  and whose stream of lowest bits has its first delimiter at an index \<open>i\<close> that is not
  a multiple of 8, the decoder does not ignore the incomplete trailing group: the
  returned message consists of the \<open>i div 8\<close> characters decoded from the complete
  groups of 8 digits, followed by one more character whose code point is the value of
  the remaining \<open>i mod 8\<close> digits read as a binary number.
\<close>

theorem extract_message_incomplete_group:
  assumes sup: "supported (getdata img)"
    and at: "occurs_at delimiter (lsb_of_channels (getdata img)) i"
    and first: "\<forall>j<i. \<not> occurs_at delimiter (lsb_of_channels (getdata img)) j"
    and part: "i mod 8 \<noteq> 0"
  shows "\<exists>full. decode_bytes (complete_groups (take i (lsb_of_channels (getdata img)))) = Inr full \<and>
           length full = i div 8 \<and>
           extract_message img
             = Inr (full @ [base2_value 0 (drop (8 * (i div 8))
                                             (take i (lsb_of_channels (getdata img))))])"
proof -
  define pre where "pre = take i (lsb_of_channels (getdata img))"
  define k where "k = 8 * (i div 8)"
  from occurs_at_bound [OF delimiter_not_Nil at]
  have "i \<le> length (lsb_of_channels (getdata img))" by simp
  then have lp: "length pre = i" by (simp add: pre_def)
  have ki: "k \<le> i" by (simp add: k_def)
  have bp: "binary pre" unfolding pre_def by (rule binary_take [OF binary_lsb_of_channels])
  have cg: "complete_groups pre = take k pre" by (simp add: complete_groups_def lp k_def)
  have ba: "binary (take k pre)" by (rule binary_take [OF bp])
  have bb: "binary (drop k pre)" by (rule binary_drop [OF bp])
  have la: "length (take k pre) = k" using ki lp by simp
  have "i - k = i mod 8" unfolding k_def by (simp add: minus_mult_div_eq_mod)
  then have lb: "length (drop k pre) = i mod 8" using lp by simp
  have dv: "8 dvd length (take k pre)" unfolding la by (simp add: k_def)
  from decode_bytes_total [OF ba] obtain full where full: "decode_bytes (take k pre) = Inr full"
    by blast
  have "length full = length (take k pre) div 8"
    by (rule length_decode_bytes [OF ba dv full])
  then have lf: "length full = i div 8" unfolding la by (simp add: k_def)
  have nb: "drop k pre \<noteq> []" using lb part by (metis length_0_conv)
  have sb: "length (drop k pre) \<le> 8" unfolding lb by simp
  have db: "decode_bytes (drop k pre) = Inr [base2_value 0 (drop k pre)]"
    by (rule decode_bytes_short [OF bb nb sb])
  have "decode_bytes (take k pre @ drop k pre) = Inr (full @ [base2_value 0 (drop k pre)])"
    by (rule decode_bytes_append [OF ba bb dv full db])
  then have "decode_bytes pre = Inr (full @ [base2_value 0 (drop k pre)])"
    by simp
  moreover have "extract_message img = decode_bytes pre"
    unfolding pre_def by (rule extract_message_at [OF sup at first])
  ultimately have "extract_message img = Inr (full @ [base2_value 0 (drop k pre)])"
    by simp
  with full lf show ?thesis unfolding cg [symmetric] unfolding pre_def k_def by blast
qed

text \<open>
  The amended claim at a concrete input: eleven digits precede the delimiter.
\<close>

theorem extract_message_incomplete_group_witness:
  "supported (getdata stego_partial) \<and>
   str_find (lsb_of_channels (getdata stego_partial)) delimiter = 11 \<and>
   (11 :: nat) mod 8 \<noteq> 0 \<and>
   (\<exists>full. decode_bytes (complete_groups (take 11 (lsb_of_channels (getdata stego_partial))))
              = Inr full \<and>
      length full = 11 div 8 \<and>
      extract_message stego_partial
        = Inr (full @ [base2_value 0 (drop (8 * (11 div 8))
                         (take 11 (lsb_of_channels (getdata stego_partial))))]))"
proof -
  have 1: "supported (getdata stego_partial)" by code_simp
  have f: "str_find (lsb_of_channels (getdata stego_partial)) delimiter = int 11" by code_simp
  then have 2: "str_find (lsb_of_channels (getdata stego_partial)) delimiter = 11" by simp
  have "str_find (lsb_of_channels (getdata stego_partial)) delimiter \<noteq> -1"
    unfolding f by simp
  from str_find_found [OF delimiter_not_Nil this] obtain i where
    i: "str_find (lsb_of_channels (getdata stego_partial)) delimiter = int i"
       "occurs_at delimiter (lsb_of_channels (getdata stego_partial)) i"
       "\<forall>j<i. \<not> occurs_at delimiter (lsb_of_channels (getdata stego_partial)) j" by blast
  from i(1) have "i = 11" unfolding f by simp
  with i(2,3) have at: "occurs_at delimiter (lsb_of_channels (getdata stego_partial)) 11"
    and first: "\<forall>j<11. \<not> occurs_at delimiter (lsb_of_channels (getdata stego_partial)) j"
    by simp_all
  have 3: "(11 :: nat) mod 8 \<noteq> 0" by simp
  note 4 = extract_message_incomplete_group [OF 1 at first 3]
  show ?thesis by (intro conjI 1 2 3 4)
qed

text \<open>
  Claim C7 as stated fails: in nine RGB pixels whose lowest bits are 01000001, 010 and
  the delimiter, eleven digits precede the delimiter. Their complete groups are the
  single group 01000001, which decodes to the character A alone; the decoder returns
  two characters, A and the character with code point 2 read from the leftover 010.
\<close>

theorem incomplete_group_counterexample:
  "supported (getdata stego_partial) \<and>
   lsb_stream (getdata stego_partial) = Inr ''010000010101111111111111110'' \<and>
   str_find ''010000010101111111111111110'' delimiter = 11 \<and>
   complete_groups (take 11 ''010000010101111111111111110'') = ''01000001'' \<and>
   decode_bytes ''01000001'' = Inr [65] \<and>
   extract_message stego_partial = Inr [65, 2]"
proof -
  have 1: "supported (getdata stego_partial)" by code_simp
  have 2: "lsb_stream (getdata stego_partial) = Inr ''010000010101111111111111110''"
    by (simp add: stego_partial_def str_lsb_def)
  have 3: "str_find ''010000010101111111111111110'' delimiter = 11" by code_simp
  have 4: "complete_groups (take 11 ''010000010101111111111111110'') = ''01000001''"
    by code_simp
  have 5: "decode_bytes ''01000001'' = Inr [65]" by (simp add: decode_bytes_short)
  have t: "take (nat 11) ''010000010101111111111111110'' = ''01000001010''" by code_simp
  have r: "decode_bytes ''010'' = Inr [2]" by (simp add: decode_bytes_short)
  have "decode_bytes (''01000001'' @ ''010'') = Inr ([65] @ [2])"
  proof (rule decode_bytes_append [OF _ _ _ 5 r])
    have "length ''01000001'' = 8" by simp
    then show "8 dvd length ''01000001''" by (simp only: dvd_refl)
  qed simp_all
  then have d: "decode_bytes ''01000001010'' = Inr [65, 2]" by simp
  have 6: "extract_message stego_partial = Inr [65, 2]"
    unfolding extract_message_def 2 by (simp add: 3 t d del: str_find.simps)
  show ?thesis by (intro conjI 1 2 3 4 5 6)
qed

end
